theory Spec2Isabelle
  imports Main "HOL-Library.Sublist"
begin

section \<open>Strings\<close>

text \<open>
  JavaScript strings are modelled as \<open>string\<close>: the list of the bytes of the text in
  UTF-8. The model covers ASCII text and the one other character of the source, the
  private-use character U+E001 of the bounds pattern; its three bytes occur in UTF-8
  text only as this character, and none of them is a digit, a space or a letter.
  Numbers are modelled as unbounded integers, which agrees with the IEEE doubles of
  JavaScript for all values below \<open>2^53\<close> in magnitude.
\<close>

definition is_space :: "char \<Rightarrow> bool" where
  \<comment> \<open>the ASCII characters matched by \<open>\s\<close> and stripped by \<open>String.prototype.trim\<close>\<close>
  "is_space c = (c \<in> set [CHR '' '', CHR 0x09, CHR 0x0A, CHR 0x0B, CHR 0x0C, CHR 0x0D])"

definition is_digit :: "char \<Rightarrow> bool" where
  \<comment> \<open>\<open>\d\<close>\<close>
  "is_digit c = (c \<in> set ''0123456789'')"

definition trim :: "string \<Rightarrow> string" where
  "trim s = rev (dropWhile is_space (rev (dropWhile is_space s)))"

definition to_upper :: "char \<Rightarrow> char" where
  "to_upper c = (let n = (of_char c :: nat) in if 97 \<le> n \<and> n \<le> 122 then char_of (n - 32) else c)"

definition toUpperCase :: "string \<Rightarrow> string" where
  "toUpperCase s = map to_upper s"

fun split_on :: "char \<Rightarrow> string \<Rightarrow> string list" where
  \<comment> \<open>\<open>s.split(sep)\<close> for a one-character separator: never returns the empty array\<close>
  "split_on sep [] = [[]]"
| "split_on sep (c # cs) =
     (if c = sep then [] # split_on sep cs
      else (case split_on sep cs of
              [] \<Rightarrow> [[c]]
            | p # ps \<Rightarrow> (c # p) # ps))"

fun join_with :: "string \<Rightarrow> string list \<Rightarrow> string" where
  \<comment> \<open>\<open>parts.join(sep)\<close>\<close>
  "join_with sep [] = []"
| "join_with sep [p] = p"
| "join_with sep (p # q # ps) = p @ sep @ join_with sep (q # ps)"

definition escape_spaces :: "string \<Rightarrow> string" where
  \<comment> \<open>\<open>text.replace(/ /g, '%s')\<close>\<close>
  "escape_spaces s = concat (map (\<lambda>c. if c = CHR '' '' then ''%s'' else [c]) s)"

definition strip_adb :: "string \<Rightarrow> string" where
  \<comment> \<open>\<open>s.replace(/^adb\s+/, '')\<close>: the greedy \<open>\s+\<close> takes the whole run of whitespace\<close>
  "strip_adb s =
     (if prefix ''adb'' s \<and> takeWhile is_space (drop 3 s) \<noteq> []
      then dropWhile is_space (drop 3 s) else s)"

fun dec_val :: "string \<Rightarrow> nat \<Rightarrow> nat" where
  \<comment> \<open>value of a run of decimal digits, with the value read so far\<close>
  "dec_val [] acc = acc"
| "dec_val (c # cs) acc = dec_val cs (10 * acc + (of_char c - 48))"

datatype jsnum = NaN | Num int

definition parseInt :: "string \<Rightarrow> jsnum" where
  \<comment> \<open>\<open>parseInt(s, 10)\<close>: leading whitespace, an optional sign, then the longest run of
      digits; \<open>NaN\<close> when that run is empty\<close>
  "parseInt s =
     (let t = dropWhile is_space s;
          neg = (case t of [] \<Rightarrow> False | c # _ \<Rightarrow> c = CHR ''-'');
          u = (case t of [] \<Rightarrow> [] | c # r \<Rightarrow> if c = CHR ''-'' \<or> c = CHR ''+'' then r else t);
          ds = takeWhile is_digit u
      in if ds = [] then NaN
         else Num (if neg then - int (dec_val ds 0) else int (dec_val ds 0)))"

fun num_times :: "jsnum \<Rightarrow> int \<Rightarrow> jsnum" where
  "num_times NaN k = NaN"
| "num_times (Num n) k = Num (n * k)"

section \<open>The bounds pattern\<close>

text \<open>
  The pattern of \<open>traverse\<close> is \<open>/E(\d+),(\d+)EE(\d+),(\d+)E/\<close>, where \<open>E\<close> stands for
  the literal character U+E001 that the source has in these four places: four capturing
  groups of digits, two literal commas, and U+E001 before, twice between and after the
  two pairs. A backtracking matcher lists the captures of every way to match a pattern
  at the start of a string, the preferred way first (a greedy group tries its longest
  run first), and \<open>regex_match\<close> tries the start positions from left to right, as
  \<open>String.prototype.match\<close> does for a pattern without the global flag.
\<close>

datatype atom = Digits | Lit char

fun match_here :: "atom list \<Rightarrow> string \<Rightarrow> string list list" where
  "match_here [] s = [[]]"
| "match_here (Lit c # as) s =
     (case s of [] \<Rightarrow> [] | x # xs \<Rightarrow> if x = c then match_here as xs else [])"
| "match_here (Digits # as) s =
     concat (map (\<lambda>n. map (\<lambda>caps. take n s # caps) (match_here as (drop n s)))
                 (rev [1 ..< Suc (length (takeWhile is_digit s))]))"

fun regex_match :: "atom list \<Rightarrow> string \<Rightarrow> string list option" where
  "regex_match p [] = (case match_here p [] of [] \<Rightarrow> None | m # _ \<Rightarrow> Some m)"
| "regex_match p (c # cs) =
     (case match_here p (c # cs) of [] \<Rightarrow> regex_match p cs | m # _ \<Rightarrow> Some m)"

definition pua :: string where
  \<comment> \<open>the character U+E001, as the three bytes of its UTF-8 encoding\<close>
  "pua = [CHR 0xEE, CHR 0x80, CHR 0x81]"

definition bounds_re :: "atom list" where
  "bounds_re =
     map Lit pua @ [Digits, Lit CHR '','', Digits] @ map Lit pua @
     map Lit pua @ [Digits, Lit CHR '','', Digits] @ map Lit pua"

section \<open>Element extraction\<close>

text \<open>
  The layout tree is what \<open>xml2js\<close> returns: a string, an array, or an object with an
  optional attribute object under the key \<open>$\<close> (attribute values are strings) and further
  properties in insertion order.
\<close>

datatype jsval =
    JStr string
  | JArr "jsval list"
  | JObj (attrs: "(string \<times> string) list option") (props: "(string \<times> jsval) list")

text \<open>The fields of an element carry the prefix \<open>el_\<close>.\<close>

record ui_element =
  el_text :: string
  el_resourceId :: string
  el_class :: string
  el_x :: int
  el_y :: int
  el_width :: int
  el_height :: int

definition attr_or_empty :: "(string \<times> string) list \<Rightarrow> string \<Rightarrow> string" where
  \<comment> \<open>\<open>node.$[k] || ''\<close>\<close>
  "attr_or_empty as k = (case map_of as k of None \<Rightarrow> [] | Some v \<Rightarrow> v)"

definition element_of :: "(string \<times> string) list \<Rightarrow> ui_element list" where
  "element_of as =
     (case regex_match bounds_re (attr_or_empty as ''bounds'') of
        None \<Rightarrow> []
      | Some caps \<Rightarrow>
          (case map (\<lambda>d. int (dec_val d 0)) caps of
             [x1, y1, x2, y2] \<Rightarrow>
               [\<lparr> el_text = attr_or_empty as ''text'',
                  el_resourceId = attr_or_empty as ''resource-id'',
                  el_class = attr_or_empty as ''class'',
                  el_x = (x1 + x2) div 2,
                  el_y = (y1 + y2) div 2,
                  el_width = x2 - x1,
                  el_height = y2 - y1 \<rparr>]
           | _ \<Rightarrow> []))"

fun traverse :: "jsval \<Rightarrow> ui_element list"
  and traverse_values :: "jsval list \<Rightarrow> ui_element list"
  and traverse_props :: "(string \<times> jsval) list \<Rightarrow> ui_element list"
  and traverse_value :: "jsval \<Rightarrow> ui_element list"
  and traverse_children :: "jsval list \<Rightarrow> ui_element list" where
  "traverse (JStr s) = []"
| "traverse (JArr vs) = traverse_values vs"
| "traverse (JObj a ps) =
     (case a of None \<Rightarrow> [] | Some as \<Rightarrow> element_of as) @ traverse_props ps"
| "traverse_values [] = []"
| "traverse_values (v # vs) = traverse_value v @ traverse_values vs"
| "traverse_props [] = []"
| "traverse_props ((k, v) # ps) = traverse_value v @ traverse_props ps"
| "traverse_value (JArr cs) = traverse_children cs"
| "traverse_value (JStr s) = []"
| "traverse_value (JObj a ps) = []"
| "traverse_children [] = []"
| "traverse_children (c # cs) = traverse c @ traverse_children cs"

definition truthy :: "jsval \<Rightarrow> bool" where
  \<comment> \<open>only the empty string is falsy among these values\<close>
  "truthy v = (case v of JStr s \<Rightarrow> s \<noteq> [] | _ \<Rightarrow> True)"

definition get_prop :: "jsval \<Rightarrow> string \<Rightarrow> jsval option" where
  \<comment> \<open>\<open>v[k]\<close> for a key that is neither \<open>$\<close> nor an index; \<open>None\<close> is \<open>undefined\<close>\<close>
  "get_prop v k = (case v of JObj a ps \<Rightarrow> map_of ps k | _ \<Rightarrow> None)"

definition extractUiElements :: "jsval \<Rightarrow> ui_element list" where
  "extractUiElements uiTree =
     (if \<not> truthy uiTree then []
      else case get_prop uiTree ''hierarchy'' of
             None \<Rightarrow> []
           | Some h \<Rightarrow>
               if \<not> truthy h then []
               else (case get_prop h ''node'' of
                       None \<Rightarrow> []
                     | Some n \<Rightarrow> if truthy n then traverse n else []))"

section \<open>Fetching the layout\<close>

text \<open>
  A computation that may throw returns \<open>Inl\<close> of the error's message or \<open>Inr\<close> of its
  value. The device, the file system and the XML parser are not part of the program: one
  fetch sees them through the outcomes of its five operations.
\<close>

type_synonym 'a result = "string + 'a"

definition bind_result :: "'a result \<Rightarrow> ('a \<Rightarrow> 'b result) \<Rightarrow> 'b result" where
  "bind_result r f = (case r of Inl e \<Rightarrow> Inl e | Inr v \<Rightarrow> f v)"

definition try_catch :: "'a result \<Rightarrow> (string \<Rightarrow> 'a result) \<Rightarrow> 'a result" where
  "try_catch body handler = (case body of Inl e \<Rightarrow> handler e | Inr v \<Rightarrow> Inr v)"

record fetch_io =
  dump_result :: "string result"
    \<comment> \<open>\<open>executeAdbCommand('shell uiautomator dump /sdcard/ui.xml')\<close>\<close>
  pull_result :: "string result"
    \<comment> \<open>\<open>executeAdbCommand('pull /sdcard/ui.xml ./ui.xml')\<close>\<close>
  file_exists :: bool
    \<comment> \<open>\<open>fs.existsSync('./ui.xml')\<close>\<close>
  read_result :: "string result"
    \<comment> \<open>\<open>fs.readFileSync('./ui.xml', 'utf-8')\<close>\<close>
  parse_result :: "string \<Rightarrow> jsval option result"
    \<comment> \<open>\<open>parser.parseStringPromise(xmlData)\<close>; \<open>None\<close> is \<open>null\<close>\<close>

definition getUiTree :: "fetch_io \<Rightarrow> jsval option result" where
  "getUiTree io =
     try_catch
       (bind_result (dump_result io) (\<lambda>_.
        bind_result (pull_result io) (\<lambda>_.
        if \<not> file_exists io then Inl ''Failed to pull ui.xml: file not found''
        else bind_result (read_result io) (\<lambda>xmlData. parse_result io xmlData))))
       (\<lambda>err. Inr None)"

fun show_nat :: "nat \<Rightarrow> string" where
  "show_nat n =
     (if n < 10 then [char_of (48 + n)] else show_nat (n div 10) @ [char_of (48 + n mod 10)])"

declare show_nat.simps [simp del]

definition show_int :: "int \<Rightarrow> string" where
  "show_int i = (if i < 0 then CHR ''-'' # show_nat (nat (- i)) else show_nat (nat i))"

definition render_element :: "ui_element \<Rightarrow> string" where
  \<comment> \<open>\<open>`${e.text || e.resourceId || e.class} [${e.x},${e.y}]`\<close>\<close>
  "render_element e =
     (if el_text e \<noteq> [] then el_text e
      else if el_resourceId e \<noteq> [] then el_resourceId e
      else el_class e)
     @ '' ['' @ show_int (el_x e) @ '','' @ show_int (el_y e) @ '']''"

definition getContext :: "fetch_io \<Rightarrow> string result" where
  "getContext io =
     bind_result (getUiTree io) (\<lambda>uiTree.
       case uiTree of
         None \<Rightarrow> Inr ''Unknown''
       | Some t \<Rightarrow>
           if \<not> truthy t then Inr ''Unknown''
           else Inr (join_with '', '' (map render_element (extractUiElements t))))"

section \<open>Parsing the plan\<close>

record step =
  primary :: string
  sleep :: "jsnum option"
    \<comment> \<open>\<open>None\<close> while the property is not set\<close>

definition push_open :: "step list \<Rightarrow> step option \<Rightarrow> step list" where
  \<comment> \<open>\<open>if (currentStep) steps.push(currentStep)\<close>\<close>
  "push_open steps currentStep =
     (case currentStep of None \<Rightarrow> steps | Some c \<Rightarrow> steps @ [c])"

fun parse_lines :: "string list \<Rightarrow> step list \<Rightarrow> step option \<Rightarrow> step list" where
  \<comment> \<open>the loop over the lines, with \<open>steps\<close> and \<open>currentStep\<close>, and the push after it\<close>
  "parse_lines [] steps currentStep = push_open steps currentStep"
| "parse_lines (line # lines) steps currentStep =
     (if toUpperCase (trim line) = ''DONE'' then parse_lines lines steps currentStep
      else if prefix ''Command:'' (trim line) then
        parse_lines lines (push_open steps currentStep)
          (Some \<lparr> primary = trim (drop 8 (trim line)), sleep = None \<rparr>)
      else if prefix ''Sleep:'' (trim line) then
        (case currentStep of
           None \<Rightarrow> parse_lines lines steps currentStep
         | Some c \<Rightarrow>
             parse_lines lines steps
               (Some (c\<lparr> sleep := Some (num_times (parseInt (trim (drop 6 (trim line)))) 1000) \<rparr>)))
      else parse_lines lines steps currentStep)"

definition parse_plan :: "string \<Rightarrow> step list" where
  "parse_plan aiOutput = parse_lines (split_on CHR 0x0A aiOutput) [] None"

section \<open>Normalising and executing the steps\<close>

definition normalize_text :: "string \<Rightarrow> string" where
  \<comment> \<open>the branch for \<open>shell input text\<close>\<close>
  "normalize_text p =
     (if prefix ''shell input text'' p \<and> 4 \<le> length (split_on CHR '' '' p)
      then ''shell input text '' @
           escape_spaces (join_with '' '' (drop 3 (split_on CHR '' '' p)))
      else p)"

definition missing_coordinates :: "string \<Rightarrow> bool" where
  \<comment> \<open>the guard of the branch for \<open>shell input tap\<close>\<close>
  "missing_coordinates p =
     (prefix ''shell input tap'' p \<and> length (split_on CHR '' '' p) < 4)"

definition normalize_step :: "string \<Rightarrow> string" where
  "normalize_step p = normalize_text (strip_adb p)"

datatype event =
    Exec string bool  \<comment> \<open>a step's command sent to the transport, and whether it succeeded\<close>
  | Observe string    \<comment> \<open>a call of \<open>getContext\<close> and the context it returned\<close>
  | Toast string
  | Wait int

datatype role = System | User | Assistant

record message =
  role :: role
  content :: string

record agent_state =
  conversation :: "message list"
  trace :: "event list"

definition emit :: "event \<Rightarrow> agent_state \<Rightarrow> agent_state" where
  "emit e s = s\<lparr> trace := trace s @ [e] \<rparr>"

definition push :: "role \<Rightarrow> string \<Rightarrow> agent_state \<Rightarrow> agent_state" where
  "push r c s = s\<lparr> conversation := conversation s @ [\<lparr> role = r, content = c \<rparr>] \<rparr>"

text \<open>
  The world outside: the transport's answer to a step's command, the outcomes of a fetch
  and the planner's reply. The first two depend on the moment they are asked, which is
  the number of events so far; the planner is asked with the whole conversation. The
  list of packages, the connection check and the user's answer are asked once.
\<close>

record world =
  adb :: "nat \<Rightarrow> string \<Rightarrow> bool"
    \<comment> \<open>does \<open>executeAdbCommand\<close> succeed for a step's command\<close>
  layout :: "nat \<Rightarrow> fetch_io"
  completion :: "message list \<Rightarrow> string result"
    \<comment> \<open>\<open>response.choices[0].message.content\<close> of the completion call\<close>
  packages :: "string result"
    \<comment> \<open>\<open>getAllPackages()\<close>\<close>
  connection :: "unit result"
    \<comment> \<open>\<open>checkAdbConnection()\<close>\<close>
  answer :: string
    \<comment> \<open>what the user types at the prompt of \<open>askGoal\<close>\<close>

definition delays :: "step \<Rightarrow> event list" where
  \<comment> \<open>the fixed delay, then the step's own when \<open>step.sleep\<close> is truthy\<close>
  "delays st =
     Wait 1500 #
     (case sleep st of
        Some (Num n) \<Rightarrow> if n \<noteq> 0 then [Wait n] else []
      | _ \<Rightarrow> [])"

definition executed :: "step \<Rightarrow> string \<Rightarrow> agent_state \<Rightarrow> agent_state" where
  \<comment> \<open>what follows a successful transport call, up to the delays\<close>
  "executed st cmd s =
     s\<lparr> trace := trace s @ [Exec cmd True, Toast (''Executed: '' @ cmd)] @ delays st \<rparr>"

definition failed :: "string \<Rightarrow> agent_state \<Rightarrow> agent_state" where
  "failed cmd s = emit (Toast (''Command failed: '' @ cmd)) (emit (Exec cmd False) s)"

definition observe :: "string \<Rightarrow> agent_state \<Rightarrow> agent_state" where
  \<comment> \<open>\<open>conversation.push({ role: 'system', content: 'UI Context: ' + context })\<close>\<close>
  "observe context s = push System (''UI Context: '' @ context) (emit (Observe context) s)"

datatype flow = Completed | Returned | Threw string

fun exec_steps :: "world \<Rightarrow> step list \<Rightarrow> agent_state \<Rightarrow> flow \<times> agent_state" where
  \<comment> \<open>the loop over the steps: it runs to its end, returns from \<open>runAgent\<close>, or throws\<close>
  "exec_steps w [] s = (Completed, s)"
| "exec_steps w (st # steps) s =
     (if primary st = [] then exec_steps w steps s
      else if missing_coordinates (normalize_step (primary st)) then
        exec_steps w steps (emit (Toast ''Skipping invalid tap command.'') s)
      else if \<not> adb w (length (trace s)) (normalize_step (primary st)) then
        (Returned, failed (normalize_step (primary st)) s)
      else
        (case getContext
                (layout w (length (trace (executed st (normalize_step (primary st)) s)))) of
           Inl e \<Rightarrow> (Threw e, executed st (normalize_step (primary st)) s)
         | Inr newContext \<Rightarrow>
             exec_steps w steps
               (observe newContext (executed st (normalize_step (primary st)) s))))"

datatype status =
    Terminated       \<comment> \<open>the planner replied \<open>DONE\<close>\<close>
  | Aborted          \<comment> \<open>a step's command failed\<close>
  | Errored string   \<comment> \<open>an exception reached the handler of \<open>runAgent\<close>\<close>
  | NoGoal           \<comment> \<open>the user gave no goal\<close>
  | Rejected string  \<comment> \<open>\<open>getAllPackages\<close> threw, outside the handler\<close>
  | OutOfFuel        \<comment> \<open>the model's bound on planning turns was reached\<close>

definition handler :: "string \<Rightarrow> agent_state \<Rightarrow> status \<times> agent_state" where
  \<comment> \<open>the \<open>catch\<close> clause of \<open>runAgent\<close>\<close>
  "handler e s = (Errored e, emit (Toast (''Error: '' @ e)) s)"

fun agent_loop :: "nat \<Rightarrow> world \<Rightarrow> agent_state \<Rightarrow> status \<times> agent_state" where
  \<comment> \<open>\<open>while (true)\<close>, with a bound on the number of planning turns\<close>
  "agent_loop 0 w s = (OutOfFuel, s)"
| "agent_loop (Suc n) w s =
     (case getContext (layout w (length (trace s))) of
        Inl e \<Rightarrow> handler e s
      | Inr context \<Rightarrow>
          (case completion w (conversation (observe context s)) of
             Inl e \<Rightarrow> handler e (observe context s)
           | Inr reply \<Rightarrow>
               if toUpperCase (trim reply) = ''DONE'' then
                 (Terminated,
                  emit (Toast ''Execution complete.'')
                    (push Assistant (trim reply) (observe context s)))
               else
                 (case exec_steps w (parse_plan (trim reply))
                         (push Assistant (trim reply) (observe context s)) of
                    (Completed, s') \<Rightarrow> agent_loop n w s'
                  | (Returned, s') \<Rightarrow> (Aborted, s')
                  | (Threw e, s') \<Rightarrow> handler e s')))"

definition system_prompt :: "string \<Rightarrow> string" where
  "system_prompt pkgs =
     ''You are an autonomous Android control agent via ADB in Termux. '' @
     ''Your task is to navigate apps using UI interactions (taps, swipes, text input) based on UI element positions and text. '' @
     ''Avoid using '' @ [CHR 0x22] @ ''shell am start ...'' @ [CHR 0x22] @
     '' unless no UI path exists. Instead, use a launcher command like '' @ [CHR 0x22] @
     ''shell monkey -p <package> -c android.intent.category.LAUNCHER 1'' @ [CHR 0x22] @
     '' when opening an app. '' @
     ''Available packages: '' @ pkgs @ ''. '' @
     ''Provide one command per step (max 2 per iteration) in the following format on separate lines:'' @
     [CHR 0x0A] @
     ''Command: <without the adb prefix> '' @ [CHR 0x22] @ ''shell input tap 500 500'' @
     [CHR 0x22] @ '' or '' @ [CHR 0x27] @ ''shell input text '' @ [CHR 0x22] @ ''hello'' @
     [CHR 0x22, CHR 0x27] @ ''>'' @ [CHR 0x0A] @
     ''Sleep: <duration in seconds>'' @ [CHR 0x0A] @
     ''Read the current UI context before proceeding with gestures. '' @
     ''Reply '' @ [CHR 0x22] @ ''DONE'' @ [CHR 0x22] @ '' when the task is complete. '' @
     ''DO NOT INCLUDE ANY ADDITIONAL TEXT. '' @
     ''RESPOND WITH '' @ [CHR 0x22] @ ''DONE'' @ [CHR 0x22] @
     '' if no further actions are required or the motive has been satisfied''"

definition initial :: "string \<Rightarrow> agent_state" where
  "initial pkgs =
     \<lparr> conversation = [\<lparr> role = System, content = system_prompt pkgs \<rparr>],
       trace = [Toast ''AI Agent Starting''] \<rparr>"

definition runAgent :: "nat \<Rightarrow> world \<Rightarrow> status \<times> agent_state" where
  "runAgent n w =
     (case packages w of
        Inl e \<Rightarrow> (Rejected e, \<lparr> conversation = [], trace = [] \<rparr>)
      | Inr pkgs \<Rightarrow>
          (case connection w of
             Inl e \<Rightarrow> handler e (initial pkgs)
           | Inr _ \<Rightarrow>
               if trim (answer w) = [] then
                 (NoGoal, emit (Toast ''No command provided.'') (initial pkgs))
               else agent_loop n w (push User (trim (answer w)) (initial pkgs))))"

section \<open>What the specification says\<close>

text \<open>
  The plan of a reply, read from the specification: each line that begins with the
  command marker opens a step, in the order of the lines; its action is the trimmed
  remainder of the line, and its delay is set by the last delay marker among the lines
  up to the next command marker.
\<close>

definition is_command_line :: "string \<Rightarrow> bool" where
  "is_command_line l = prefix ''Command:'' (trim l)"

definition is_sleep_line :: "string \<Rightarrow> bool" where
  "is_sleep_line l = prefix ''Sleep:'' (trim l)"

definition action_of :: "string \<Rightarrow> string" where
  "action_of l = trim (drop 8 (trim l))"

definition digit_of :: "char \<Rightarrow> nat" where
  "digit_of c = of_char c - 48"

fun numeral_value :: "string \<Rightarrow> nat" where
  \<comment> \<open>the number that a run of decimal digits writes: each digit counts for its power of
      ten\<close>
  "numeral_value [] = 0"
| "numeral_value (d # ds) = digit_of d * 10 ^ length ds + numeral_value ds"

definition spec_integer :: "string \<Rightarrow> int option" where
  \<comment> \<open>the integer that a text begins with, after blanks: a sign, if any, and the digits
      that follow; none when no digit stands there\<close>
  "spec_integer s =
     (case dropWhile is_space s of
        [] \<Rightarrow> None
      | c # r \<Rightarrow>
          if c = CHR ''-'' then
            (case takeWhile is_digit r of
               [] \<Rightarrow> None
             | d # ds \<Rightarrow> Some (- int (numeral_value (d # ds))))
          else if c = CHR ''+'' then
            (case takeWhile is_digit r of
               [] \<Rightarrow> None
             | d # ds \<Rightarrow> Some (int (numeral_value (d # ds))))
          else
            (case takeWhile is_digit (c # r) of
               [] \<Rightarrow> None
             | d # ds \<Rightarrow> Some (int (numeral_value (d # ds)))))"

definition delay_of :: "string \<Rightarrow> jsnum" where
  \<comment> \<open>the delay of a line with the delay marker: its integer value, in seconds, times
      1000; not a number when the line holds no integer\<close>
  "delay_of l =
     (case spec_integer (trim (drop 6 (trim l))) of
        None \<Rightarrow> NaN
      | Some seconds \<Rightarrow> Num (seconds * 1000))"

definition own_lines :: "string list \<Rightarrow> string list" where
  \<comment> \<open>the lines that follow a command marker, up to the next one\<close>
  "own_lines ls = takeWhile (\<lambda>l. \<not> is_command_line l) ls"

definition delay_in :: "string list \<Rightarrow> jsnum option" where
  "delay_in block =
     (case filter is_sleep_line block of
        [] \<Rightarrow> None
      | d # ds \<Rightarrow> Some (delay_of (last (d # ds))))"

fun spec_plan :: "string list \<Rightarrow> step list" where
  "spec_plan [] = []"
| "spec_plan (l # ls) =
     (if is_command_line l
      then \<lparr> primary = action_of l, sleep = delay_in (own_lines ls) \<rparr> # spec_plan ls
      else spec_plan ls)"

definition with_delay :: "jsnum option \<Rightarrow> step \<Rightarrow> step" where
  "with_delay d c = (case d of None \<Rightarrow> c | Some v \<Rightarrow> c\<lparr> sleep := Some v \<rparr>)"

text \<open>
  The payload of a text-input action, read from the specification: everything after the
  third whitespace-separated token (and the one character that ends that token).
\<close>

definition skip_token :: "string \<Rightarrow> string" where
  "skip_token s = dropWhile (\<lambda>c. \<not> is_space c) (dropWhile is_space s)"

definition spec_payload :: "string \<Rightarrow> string" where
  "spec_payload s = drop 1 (skip_token (skip_token (skip_token s)))"

text \<open>
  The documented format of the \<open>bounds\<close> attribute, \<open>[x1,y1][x2,y2]\<close>, for four
  coordinates.
\<close>

definition bounds_string :: "nat \<Rightarrow> nat \<Rightarrow> nat \<Rightarrow> nat \<Rightarrow> string" where
  "bounds_string x1 y1 x2 y2 =
     ''['' @ show_nat x1 @ '','' @ show_nat y1 @ '']['' @
     show_nat x2 @ '','' @ show_nat y2 @ '']''"

text \<open>
  The format that the pattern of the source accepts: the same four coordinates, with
  the character U+E001 in the place of each bracket.
\<close>

definition pua_bounds_string :: "nat \<Rightarrow> nat \<Rightarrow> nat \<Rightarrow> nat \<Rightarrow> string" where
  "pua_bounds_string x1 y1 x2 y2 =
     pua @ show_nat x1 @ '','' @ show_nat y1 @ pua @ pua @
     show_nat x2 @ '','' @ show_nat y2 @ pua"

section \<open>Reading a trace\<close>

fun outcomes :: "event list \<Rightarrow> bool list" where
  \<comment> \<open>the results of the transport calls for steps, in order\<close>
  "outcomes [] = []"
| "outcomes (Exec c ok # tr) = ok # outcomes tr"
| "outcomes (e # tr) = outcomes tr"

fun fails_last :: "event list \<Rightarrow> bool" where
  \<comment> \<open>a transport call fails, none before it does, and only its notice follows it\<close>
  "fails_last [] = False"
| "fails_last (Exec c ok # tr) =
     (if ok then fails_last tr else tr = [Toast (''Command failed: '' @ c)])"
| "fails_last (e # tr) = fails_last tr"

fun fresh_from :: "world \<Rightarrow> nat \<Rightarrow> event list \<Rightarrow> bool" where
  \<comment> \<open>Every observation of a trace that starts at moment \<open>k\<close> carries what \<open>getContext\<close>
      returns for the layout of its own moment.\<close>
  "fresh_from w k [] = True"
| "fresh_from w k (Observe c # tr) =
     (getContext (layout w k) = Inr c \<and> fresh_from w (Suc k) tr)"
| "fresh_from w k (e # tr) = fresh_from w (Suc k) tr"

fun observations :: "event list \<Rightarrow> string list" where
  "observations [] = []"
| "observations (Observe c # tr) = c # observations tr"
| "observations (e # tr) = observations tr"

fun alternates :: "bool \<Rightarrow> event list \<Rightarrow> bool" where
  \<comment> \<open>An observation is due exactly after a successful transport call: it is taken before
      the next call and before the end of the trace, and at no other moment.\<close>
  "alternates due [] = (\<not> due)"
| "alternates due (Exec c ok # tr) = (\<not> due \<and> alternates ok tr)"
| "alternates due (Observe c # tr) = (due \<and> alternates False tr)"
| "alternates due (e # tr) = alternates due tr"

definition context_message :: "string \<Rightarrow> message" where
  "context_message c = \<lparr> role = System, content = ''UI Context: '' @ c \<rparr>"


section \<open>Concrete inputs\<close>

definition no_device :: fetch_io where
  "no_device =
     \<lparr> dump_result = Inl ''ADB command failed: no devices'', pull_result = Inr [],
       file_exists = False, read_result = Inr [], parse_result = (\<lambda>xmlData. Inr None) \<rparr>"

definition one_node :: jsval where
  \<comment> \<open>a layout whose only node has the bounds \<open>[0,0][100,200]\<close>\<close>
  "one_node =
     JObj None
       [(''hierarchy'',
         JObj (Some [(''rotation'', ''0'')])
           [(''node'', JArr [JObj (Some [(''text'', ''OK''), (''bounds'', ''[0,0][100,200]'')]) []])])]"

definition pua_node :: jsval where
  \<comment> \<open>a node whose bounds are written with U+E001 in the place of the brackets\<close>
  "pua_node =
     JObj (Some [(''text'', ''OK''), (''bounds'', pua_bounds_string 0 0 100 200)]) []"

definition screen :: fetch_io where
  "screen =
     \<lparr> dump_result = Inr [], pull_result = Inr [], file_exists = True,
       read_result = Inr ''<hierarchy/>'', parse_result = (\<lambda>xmlData. Inr (Some one_node)) \<rparr>"

definition world_of :: "bool \<Rightarrow> string \<Rightarrow> world" where
  \<comment> \<open>a world whose transport always answers \<open>ok\<close> and whose planner gives \<open>reply\<close> once,
      then \<open>done\<close>\<close>
  "world_of ok reply =
     \<lparr> adb = (\<lambda>n cmd. ok), layout = (\<lambda>n. no_device),
       completion = (\<lambda>ms. if length ms < 3 then Inr reply else Inr ''done''),
       packages = Inr ''com.android.settings'', connection = Inr (), answer = ''open settings'' \<rparr>"

definition tabbed :: string where
  \<comment> \<open>a text-input action whose third token ends at a tab\<close>
  "tabbed = ''shell input text'' @ [CHR 0x09] @ ''a b''"

definition tap_step :: step where
  "tap_step = \<lparr> primary = ''shell input tap'', sleep = None \<rparr>"

definition key_step :: step where
  "key_step = \<lparr> primary = ''shell input keyevent 3'', sleep = None \<rparr>"

definition start :: agent_state where
  "start = \<lparr> conversation = [], trace = [] \<rparr>"

section \<open>Strings: splitting, joining, escaping\<close>

lemma split_on_nonempty: "split_on sep s \<noteq> []"
  by (induction s) (auto split: list.splits)

lemma split_on_token:
  "sep \<notin> set t \<Longrightarrow> split_on sep (t @ sep # rest) = t # split_on sep rest"
  by (induction t) (auto split: list.splits)

lemma split_on_no_sep: "sep \<notin> set t \<Longrightarrow> split_on sep t = [t]"
  by (induction t) (auto split: list.splits)

lemma join_split: "join_with [sep] (split_on sep s) = s"
proof (induction s)
  case Nil
  then show ?case by simp
next
  case (Cons c cs)
  obtain p ps where ps: "split_on sep cs = p # ps"
    using split_on_nonempty [of sep cs] by (cases "split_on sep cs") auto
  show ?case
    using Cons ps by (cases ps) auto
qed

lemma escape_no_space: "CHR '' '' \<notin> set (escape_spaces s)"
  by (induction s) (auto simp: escape_spaces_def)

lemma escape_id: "CHR '' '' \<notin> set s \<Longrightarrow> escape_spaces s = s"
  by (induction s) (auto simp: escape_spaces_def)

lemma normalize_text_shape:
  assumes "CHR '' '' \<notin> set t" and "prefix ''text'' t"
  shows "normalize_text (''shell input '' @ t @ '' '' @ payload) =
         ''shell input text '' @ escape_spaces payload"
proof -
  define p where "p = ''shell input '' @ t @ '' '' @ payload"
  have s: "split_on CHR '' '' p = ''shell'' # ''input'' # t # split_on CHR '' '' payload"
    using split_on_token [of "CHR '' ''" "''shell''" "''input '' @ t @ '' '' @ payload"]
      split_on_token [of "CHR '' ''" "''input''" "t @ '' '' @ payload"]
      split_on_token [of "CHR '' ''" t payload] assms(1)
    by (simp add: p_def)
  from assms(2) obtain r where t: "t = ''text'' @ r" by (auto simp: prefix_def)
  have pre: "prefix ''shell input text'' p"
    by (simp add: t p_def)
  have l: "4 \<le> length (split_on CHR '' '' p)"
    using split_on_nonempty [of "CHR '' ''" payload]
    by (cases "split_on CHR '' '' payload") (simp_all add: s)
  have "normalize_text p = ''shell input text '' @ escape_spaces payload"
    unfolding normalize_text_def using pre l join_split [of "CHR '' ''" payload] by (simp add: s)
  then show ?thesis by (simp only: p_def)
qed

lemma normalize_text_idem: "normalize_text (normalize_text q) = normalize_text q"
proof (cases "prefix ''shell input text'' q \<and> 4 \<le> length (split_on CHR '' '' q)")
  case False
  then show ?thesis by (auto simp: normalize_text_def)
next
  case True
  define e where "e = escape_spaces (join_with '' '' (drop 3 (split_on CHR '' '' q)))"
  have n: "normalize_text q = ''shell input text '' @ e"
    using True by (simp add: normalize_text_def e_def)
  have "CHR '' '' \<notin> set e" by (simp add: e_def escape_no_space)
  then have "normalize_text (''shell input '' @ ''text'' @ '' '' @ e) =
      ''shell input text '' @ escape_spaces e"
    and "escape_spaces e = e"
    using normalize_text_shape [of "''text''" e] by (simp_all add: escape_id)
  then show ?thesis by (simp add: n)
qed

section \<open>Decimal numerals\<close>

lemma digit_char: "(k::nat) < 10 \<Longrightarrow> is_digit (char_of (48 + k))"
proof -
  assume "k < 10"
  then have "k \<in> set [0 ..< 10]" by simp
  moreover have "list_all (\<lambda>k. is_digit (char_of (48 + k))) [0 ..< (10::nat)]"
    by code_simp
  ultimately show ?thesis by (simp only: list_all_iff)
qed

lemma show_nat_digits: "list_all is_digit (show_nat n)"
proof (induction n rule: show_nat.induct)
  case (1 n)
  show ?case
  proof (cases "n < 10")
    case True
    then show ?thesis by (subst show_nat.simps) (simp add: digit_char)
  next
    case False
    then show ?thesis using 1 by (subst show_nat.simps) (simp add: digit_char)
  qed
qed

lemma show_nat_nonempty: "show_nat n \<noteq> []"
  by (subst show_nat.simps) simp

lemma digit_plain: "is_digit c \<Longrightarrow> \<not> is_space c \<and> c \<noteq> CHR ''-'' \<and> c \<noteq> CHR ''+''"
  by (auto simp: is_digit_def is_space_def)

lemma digit_of_char: "(k::nat) < 10 \<Longrightarrow> digit_of (char_of (48 + k)) = k"
  by (simp add: digit_of_def)

lemma numeral_value_snoc: "numeral_value (ds @ [d]) = 10 * numeral_value ds + digit_of d"
  by (induction ds) (simp_all add: algebra_simps)

lemma numeral_value_show_nat: "numeral_value (show_nat n) = n"
proof (induction n rule: show_nat.induct)
  case (1 n)
  show ?case
  proof (cases "n < 10")
    case True
    then show ?thesis by (subst show_nat.simps) (simp add: digit_of_char)
  next
    case False
    then have "numeral_value (show_nat n) =
        10 * numeral_value (show_nat (n div 10)) + digit_of (char_of (48 + n mod 10))"
      by (subst show_nat.simps) (simp add: numeral_value_snoc)
    also have "\<dots> = 10 * (n div 10) + n mod 10"
      using False 1 by (simp add: digit_of_char)
    finally show ?thesis by simp
  qed
qed

lemma dec_val_value: "dec_val ds acc = acc * 10 ^ length ds + numeral_value ds"
  by (induction ds arbitrary: acc) (simp_all add: digit_of_def algebra_simps)

lemma dec_val_show_nat: "dec_val (show_nat n) 0 = n"
  by (simp add: dec_val_value numeral_value_show_nat)

section \<open>What the bounds pattern matches\<close>

text \<open>
  The pattern begins with U+E001, so a string without the first byte of that character
  has no match.
\<close>

lemma match_lit:
  "match_here (Lit c # as) s \<noteq> [] \<Longrightarrow> \<exists>r. s = c # r \<and> match_here as r \<noteq> []"
  by (cases s) (auto split: if_splits)

lemma bounds_re_head: "\<exists>as. bounds_re = Lit (CHR 0xEE) # as"
  by (simp add: bounds_re_def pua_def)

lemma match_needs_pua: "match_here bounds_re t \<noteq> [] \<Longrightarrow> \<exists>r. t = CHR 0xEE # r"
proof -
  assume m: "match_here bounds_re t \<noteq> []"
  obtain as where "bounds_re = Lit (CHR 0xEE) # as"
    using bounds_re_head by blast
  with m match_lit [of "CHR 0xEE" as t] show ?thesis by auto
qed

lemma no_pua_no_match: "CHR 0xEE \<notin> set s \<Longrightarrow> regex_match bounds_re s = None"
proof (induction s)
  case Nil
  have "match_here bounds_re [] = []"
    using match_needs_pua [of "[]"] by blast
  then show ?case by simp
next
  case (Cons c cs)
  have "match_here bounds_re (c # cs) = []"
    using match_needs_pua [of "c # cs"] Cons.prems by auto
  then show ?case using Cons by simp
qed

lemma pua_not_digit: "\<not> is_digit (CHR 0xEE)"
  by (simp add: is_digit_def)

lemma show_nat_no_pua: "CHR 0xEE \<notin> set (show_nat n)"
proof
  assume "CHR 0xEE \<in> set (show_nat n)"
  moreover have "\<forall>c \<in> set (show_nat n). is_digit c"
    using show_nat_digits [of n] by (simp only: list_all_iff)
  ultimately have "is_digit (CHR 0xEE)" by blast
  then show False by (simp only: pua_not_digit)
qed

lemma bounds_string_no_pua: "CHR 0xEE \<notin> set (bounds_string x1 y1 x2 y2)"
proof -
  have "set (bounds_string x1 y1 x2 y2) =
      set ''[,]'' \<union> set (show_nat x1) \<union> set (show_nat y1) \<union> set (show_nat x2) \<union> set (show_nat y2)"
    unfolding bounds_string_def by (simp only: set_append set_simps) blast
  moreover have "CHR 0xEE \<notin> set ''[,]''" by simp
  ultimately show ?thesis using show_nat_no_pua by blast
qed

text \<open>
  No string of the documented format \<open>[x1,y1][x2,y2]\<close> matches the pattern, whatever
  the four coordinates are, and a node with such bounds yields no element.
\<close>

lemma bounds_string_never_matches:
  "regex_match bounds_re (bounds_string x1 y1 x2 y2) = None"
  by (rule no_pua_no_match) (rule bounds_string_no_pua)

lemma documented_bounds_no_element:
  "map_of as ''bounds'' = Some (bounds_string x1 y1 x2 y2) \<Longrightarrow> element_of as = []"
  by (simp add: element_of_def attr_or_empty_def bounds_string_never_matches)

text \<open>
  What the pattern does accept is the same text with U+E001 in the place of each
  bracket. A greedy group of digits followed by a character that is no digit takes the
  whole run at its first try, so the four captures are the four coordinates, and the
  element has the midpoint and the extents of the box.
\<close>

lemma match_digits_greedy:
  assumes "d \<noteq> []" and "list_all is_digit d"
    and "rest = [] \<or> \<not> is_digit (hd rest)"
    and "match_here as rest = m # ms"
  shows "\<exists>ms'. match_here (Digits # as) (d @ rest) = (d # m) # ms'"
proof -
  define f where
    "f = (\<lambda>n. map (\<lambda>caps. take n (d @ rest) # caps) (match_here as (drop n (d @ rest))))"
  have r: "takeWhile is_digit rest = []"
    using assms(3) by (cases rest) auto
  have t: "takeWhile is_digit (d @ rest) = d"
    using assms(2) r by (simp add: list_all_iff)
  have "1 \<le> length d"
    using assms(1) by (cases d) auto
  then have "[1 ..< Suc (length d)] = [1 ..< length d] @ [length d]"
    by (rule upt_Suc_append)
  then have u: "rev [1 ..< Suc (length d)] = length d # rev [1 ..< length d]"
    by (simp only: rev_append rev.simps append.simps)
  have "match_here (Digits # as) (d @ rest) = concat (map f (rev [1 ..< Suc (length d)]))"
    by (simp only: match_here.simps t f_def)
  also have "\<dots> = f (length d) @ concat (map f (rev [1 ..< length d]))"
    by (simp only: u list.map concat.simps)
  also have "f (length d) = (d # m) # map (\<lambda>caps. d # caps) ms"
    by (simp add: f_def assms(4))
  finally show ?thesis by simp
qed

lemma match_pua: "match_here (map Lit pua @ as) (pua @ r) = match_here as r"
  by (simp add: pua_def)

lemma pua_head: "pua @ r \<noteq> [] \<and> \<not> is_digit (hd (pua @ r))"
  by (simp add: pua_def is_digit_def)

lemma match_pua_bounds:
  assumes "d1 \<noteq> []" "list_all is_digit d1" "d2 \<noteq> []" "list_all is_digit d2"
    and "d3 \<noteq> []" "list_all is_digit d3" "d4 \<noteq> []" "list_all is_digit d4"
  shows "\<exists>ms. match_here bounds_re
            (pua @ d1 @ '','' @ d2 @ pua @ pua @ d3 @ '','' @ d4 @ pua) = [d1, d2, d3, d4] # ms"
proof -
  let ?L = "map Lit pua"
  have s7: "match_here (?L @ []) (pua @ []) = [] # []"
    by (simp only: match_pua) simp
  obtain m6 where s6: "match_here (Digits # ?L @ []) (d4 @ pua @ []) = [d4] # m6"
    using match_digits_greedy [OF assms(7,8) _ s7] pua_head [of "[]"] by blast
  then have s5: "match_here (Lit CHR '','' # Digits # ?L @ []) (CHR '','' # d4 @ pua @ []) = [d4] # m6"
    by simp
  obtain m4 where s4: "match_here (Digits # Lit CHR '','' # Digits # ?L @ [])
      (d3 @ CHR '','' # d4 @ pua @ []) = [d3, d4] # m4"
    using match_digits_greedy [OF assms(5,6) _ s5] by (auto simp: is_digit_def)
  then have s3: "match_here (?L @ ?L @ Digits # Lit CHR '','' # Digits # ?L @ [])
      (pua @ pua @ d3 @ CHR '','' # d4 @ pua @ []) = [d3, d4] # m4"
    by (simp only: match_pua)
  obtain m2 where s2: "match_here (Digits # ?L @ ?L @ Digits # Lit CHR '','' # Digits # ?L @ [])
      (d2 @ pua @ pua @ d3 @ CHR '','' # d4 @ pua @ []) = [d2, d3, d4] # m2"
    using match_digits_greedy [OF assms(3,4) _ s3] pua_head by blast
  then have s1: "match_here
      (Lit CHR '','' # Digits # ?L @ ?L @ Digits # Lit CHR '','' # Digits # ?L @ [])
      (CHR '','' # d2 @ pua @ pua @ d3 @ CHR '','' # d4 @ pua @ []) = [d2, d3, d4] # m2"
    by simp
  obtain m0 where s0: "match_here
      (Digits # Lit CHR '','' # Digits # ?L @ ?L @ Digits # Lit CHR '','' # Digits # ?L @ [])
      (d1 @ CHR '','' # d2 @ pua @ pua @ d3 @ CHR '','' # d4 @ pua @ []) = [d1, d2, d3, d4] # m0"
    using match_digits_greedy [OF assms(1,2) _ s1] by (auto simp: is_digit_def)
  then have "match_here
      (?L @ Digits # Lit CHR '','' # Digits # ?L @ ?L @ Digits # Lit CHR '','' # Digits # ?L @ [])
      (pua @ d1 @ CHR '','' # d2 @ pua @ pua @ d3 @ CHR '','' # d4 @ pua @ []) = [d1, d2, d3, d4] # m0"
    by (simp only: match_pua)
  then show ?thesis by (simp add: bounds_re_def)
qed

lemma regex_match_first:
  "match_here p s = m # ms \<Longrightarrow> regex_match p s = Some m"
  by (cases s) simp_all

lemma pua_bounds_string_matches:
  "regex_match bounds_re (pua_bounds_string x1 y1 x2 y2) =
     Some [show_nat x1, show_nat y1, show_nat x2, show_nat y2]"
proof -
  obtain ms where "match_here bounds_re (pua_bounds_string x1 y1 x2 y2) =
      [show_nat x1, show_nat y1, show_nat x2, show_nat y2] # ms"
    unfolding pua_bounds_string_def
    using match_pua_bounds [OF show_nat_nonempty show_nat_digits show_nat_nonempty show_nat_digits
        show_nat_nonempty show_nat_digits show_nat_nonempty show_nat_digits]
    by blast
  then show ?thesis by (rule regex_match_first)
qed

lemma pua_bounds_yield_element:
  assumes "map_of as ''bounds'' = Some (pua_bounds_string x1 y1 x2 y2)"
  shows "element_of as =
     [\<lparr> el_text = attr_or_empty as ''text'',
        el_resourceId = attr_or_empty as ''resource-id'',
        el_class = attr_or_empty as ''class'',
        el_x = (int x1 + int x2) div 2,
        el_y = (int y1 + int y2) div 2,
        el_width = int x2 - int x1,
        el_height = int y2 - int y1 \<rparr>]"
proof -
  have "attr_or_empty as ''bounds'' = pua_bounds_string x1 y1 x2 y2"
    using assms by (simp add: attr_or_empty_def)
  then show ?thesis
    by (simp add: element_of_def pua_bounds_string_matches dec_val_show_nat)
qed

lemma pua_node_yields_element:
  "traverse pua_node =
     [\<lparr> el_text = ''OK'', el_resourceId = [], el_class = [],
        el_x = 50, el_y = 100, el_width = 100, el_height = 200 \<rparr>]"
  by code_simp

lemma plain_digits_do_not_match:
  "regex_match bounds_re ''1,23,4'' = None \<and> regex_match bounds_re ''x 12,3456,78 y'' = None"
  by code_simp

text \<open>
  The parser returns the children of an element in an array. Called with an array of
  element objects, \<open>traverse\<close> finds no array among its members and visits none of them.
\<close>

lemma array_of_objects_not_visited: "list_all is_JObj vs \<Longrightarrow> traverse (JArr vs) = []"
proof -
  have "list_all is_JObj vs \<Longrightarrow> traverse_values vs = []"
    by (induction vs) (auto simp: is_JObj_def)
  then show "list_all is_JObj vs \<Longrightarrow> traverse (JArr vs) = []" by simp
qed

text \<open>
  Claim C1. A node whose \<open>bounds\<close> attribute has the documented format
  \<open>[x1,y1][x2,y2]\<close> should yield an element with the midpoint and the extents of its
  box. The code yields none: its pattern has the character U+E001 in the four places
  where the format has a bracket, so the bounds \<open>[0,0][100,200]\<close> do not match (by
  \<open>bounds_string_never_matches\<close> no string of the format does). No element is pushed
  for the node alone, none for a layout as the parser returns it, and the context of a
  fetch of that layout is the empty string.
\<close>

theorem documented_bounds_yield_no_element:
  "bounds_string 0 0 100 200 = ''[0,0][100,200]'' \<and>
   regex_match bounds_re ''[0,0][100,200]'' = None \<and>
   traverse (JObj (Some [(''text'', ''OK''), (''bounds'', ''[0,0][100,200]'')]) []) = [] \<and>
   extractUiElements one_node = [] \<and>
   getContext screen = Inr []"
  by code_simp

section \<open>The plan parser\<close>

lemma done_line:
  assumes "toUpperCase t = ''DONE''"
  shows "\<not> prefix ''Command:'' t \<and> \<not> prefix ''Sleep:'' t"
proof -
  from assms have "length (toUpperCase t) = 4" by simp
  then have "length t = 4" by (simp add: toUpperCase_def)
  then show ?thesis by (auto simp: prefix_def)
qed

lemma parseInt_spec:
  "parseInt s = (case spec_integer s of None \<Rightarrow> NaN | Some n \<Rightarrow> Num n)"
proof -
  define t where "t = dropWhile is_space s"
  have p: "parseInt s =
      (let neg = (case t of [] \<Rightarrow> False | c # _ \<Rightarrow> c = CHR ''-'');
           u = (case t of [] \<Rightarrow> [] | c # r \<Rightarrow> if c = CHR ''-'' \<or> c = CHR ''+'' then r else t);
           ds = takeWhile is_digit u
       in if ds = [] then NaN
          else Num (if neg then - int (dec_val ds 0) else int (dec_val ds 0)))"
    by (simp only: parseInt_def t_def Let_def)
  have q: "spec_integer s =
      (case t of
        [] \<Rightarrow> None
      | c # r \<Rightarrow>
          if c = CHR ''-'' then
            (case takeWhile is_digit r of
               [] \<Rightarrow> None
             | d # ds \<Rightarrow> Some (- int (numeral_value (d # ds))))
          else if c = CHR ''+'' then
            (case takeWhile is_digit r of
               [] \<Rightarrow> None
             | d # ds \<Rightarrow> Some (int (numeral_value (d # ds))))
          else
            (case takeWhile is_digit (c # r) of
               [] \<Rightarrow> None
             | d # ds \<Rightarrow> Some (int (numeral_value (d # ds)))))"
    by (simp only: spec_integer_def t_def)
  show ?thesis
  proof (cases t)
    case Nil
    then show ?thesis by (simp add: p q)
  next
    case (Cons c r)
    show ?thesis
    proof (cases "c = CHR ''-'' \<or> c = CHR ''+''")
      case True
      then show ?thesis
        using Cons
        by (cases "takeWhile is_digit r") (auto simp: p q Let_def dec_val_value)
    next
      case False
      then show ?thesis
        using Cons
        by (cases "takeWhile is_digit (c # r)") (simp_all add: p q Let_def dec_val_value)
    qed
  qed
qed

lemma delay_of_code: "num_times (parseInt (trim (drop 6 (trim l)))) 1000 = delay_of l"
  by (simp add: parseInt_spec delay_of_def split: option.splits)

lemma trim_id: "s \<noteq> [] \<Longrightarrow> \<not> is_space (hd s) \<Longrightarrow> \<not> is_space (last s) \<Longrightarrow> trim s = s"
proof -
  assume s: "s \<noteq> []" and h: "\<not> is_space (hd s)" and l: "\<not> is_space (last s)"
  from s h have a: "dropWhile is_space s = s" by (cases s) simp_all
  from s l have "dropWhile is_space (rev s) = rev s"
    by (cases "rev s") (simp_all add: last_rev [symmetric] del: last_rev)
  with a show ?thesis by (simp add: trim_def)
qed

lemma trim_show_nat: "trim (show_nat n) = show_nat n"
proof (rule trim_id)
  show "show_nat n \<noteq> []" by (rule show_nat_nonempty)
  have d: "\<forall>c \<in> set (show_nat n). is_digit c"
    using show_nat_digits [of n] by (simp only: list_all_iff)
  have "hd (show_nat n) \<in> set (show_nat n)" "last (show_nat n) \<in> set (show_nat n)"
    using show_nat_nonempty by simp_all
  with d have "is_digit (hd (show_nat n))" "is_digit (last (show_nat n))" by blast+
  then show "\<not> is_space (hd (show_nat n))" "\<not> is_space (last (show_nat n))"
    using digit_plain by blast+
qed

lemma spec_integer_show_nat: "spec_integer (show_nat n) = Some (int n)"
proof -
  obtain c r where cr: "show_nat n = c # r"
    using show_nat_nonempty [of n] by (cases "show_nat n") auto
  have d: "\<forall>x \<in> set (c # r). is_digit x"
    using show_nat_digits [of n] by (simp only: list_all_iff cr)
  then have c: "is_digit c" by simp
  then have plain: "\<not> is_space c" "c \<noteq> CHR ''-''" "c \<noteq> CHR ''+''"
    using digit_plain by blast+
  have t: "takeWhile is_digit (c # r) = c # r"
    using d by (simp only: takeWhile_eq_all_conv)
  have "spec_integer (c # r) = Some (int (numeral_value (c # r)))"
    unfolding spec_integer_def using plain by (simp add: t del: takeWhile.simps numeral_value.simps)
  then show ?thesis by (simp only: cr [symmetric] numeral_value_show_nat)
qed

lemma delay_of_seconds: "delay_of (''Sleep: '' @ show_nat n) = Num (int n * 1000)"
proof -
  have l: "last (''Sleep: '' @ show_nat n) = last (show_nat n)"
    using show_nat_nonempty by simp
  have "last (show_nat n) \<in> set (show_nat n)"
    using show_nat_nonempty by simp
  moreover have "\<forall>c \<in> set (show_nat n). is_digit c"
    using show_nat_digits [of n] by (simp only: list_all_iff)
  ultimately have "\<not> is_space (last (show_nat n))"
    using digit_plain by blast
  then have a: "trim (''Sleep: '' @ show_nat n) = ''Sleep: '' @ show_nat n"
    using l by (intro trim_id) (simp_all add: is_space_def)
  have b: "trim (CHR '' '' # show_nat n) = trim (show_nat n)"
    by (simp add: trim_def is_space_def)
  have "trim (drop 6 (trim (''Sleep: '' @ show_nat n))) = show_nat n"
    by (simp only: a) (simp add: b trim_show_nat)
  then show ?thesis
    by (simp only: delay_of_def spec_integer_show_nat option.case)
qed

lemma delay_examples:
  "delay_of ''Sleep: 2'' = Num 2000 \<and>
   delay_of '' Sleep:  -15 s'' = Num (- 15000) \<and>
   delay_of ''Sleep: soon'' = NaN"
  by code_simp

lemma delay_in_Cons:
  "delay_in (l # ls) =
     (case delay_in ls of
        Some d \<Rightarrow> Some d
      | None \<Rightarrow> if is_sleep_line l then Some (delay_of l) else None)"
  by (auto simp: delay_in_def split: list.splits)

lemma parse_lines_spec:
  "parse_lines ls steps cur =
     steps @ (case cur of
                None \<Rightarrow> spec_plan ls
              | Some c \<Rightarrow> with_delay (delay_in (own_lines ls)) c # spec_plan ls)"
proof (induction ls arbitrary: steps cur)
  case Nil
  then show ?case
    by (simp add: push_open_def own_lines_def delay_in_def with_delay_def split: option.splits)
next
  case (Cons l ls)
  consider (fin) "toUpperCase (trim l) = ''DONE''"
    | (cmd) "toUpperCase (trim l) \<noteq> ''DONE''" "prefix ''Command:'' (trim l)"
    | (slp) "toUpperCase (trim l) \<noteq> ''DONE''" "\<not> prefix ''Command:'' (trim l)"
        "prefix ''Sleep:'' (trim l)"
    | (other) "toUpperCase (trim l) \<noteq> ''DONE''" "\<not> prefix ''Command:'' (trim l)"
        "\<not> prefix ''Sleep:'' (trim l)"
    by blast
  then show ?case
  proof cases
    case fin
    with done_line [of "trim l"] show ?thesis
      by (simp add: Cons is_command_line_def is_sleep_line_def own_lines_def delay_in_Cons
          with_delay_def split: option.splits)
  next
    case cmd
    then show ?thesis
      by (simp add: Cons is_command_line_def own_lines_def delay_in_def action_of_def
          with_delay_def push_open_def split: option.splits)
  next
    case slp
    then show ?thesis
      by (simp add: Cons is_command_line_def is_sleep_line_def own_lines_def delay_in_Cons
          with_delay_def delay_of_code split: option.splits)
  next
    case other
    then show ?thesis
      by (simp add: Cons is_command_line_def is_sleep_line_def own_lines_def delay_in_Cons
          with_delay_def split: option.splits)
  qed
qed

lemma spec_plan_actions:
  "map primary (spec_plan ls) = map action_of (filter is_command_line ls)"
  by (induction ls) auto

lemma trim_sleep_line: "trim (''Sleep: '' @ show_nat n) = ''Sleep: '' @ show_nat n"
proof -
  have l: "last (''Sleep: '' @ show_nat n) = last (show_nat n)"
    using show_nat_nonempty by simp
  have "last (show_nat n) \<in> set (show_nat n)"
    using show_nat_nonempty by simp
  moreover have "\<forall>c \<in> set (show_nat n). is_digit c"
    using show_nat_digits [of n] by (simp only: list_all_iff)
  ultimately have "\<not> is_space (last (show_nat n))"
    using digit_plain by blast
  then show ?thesis
    using l by (intro trim_id) (simp_all add: is_space_def)
qed

lemma newline_not_digit: "\<not> is_digit (CHR 0x0A)"
  by (simp add: is_digit_def)

lemma sleep_line_one_line: "CHR 0x0A \<notin> set (''Sleep: '' @ show_nat n)"
proof -
  have "\<forall>c \<in> set (show_nat n). is_digit c"
    using show_nat_digits [of n] by (simp only: list_all_iff)
  then have "CHR 0x0A \<notin> set (show_nat n)"
    using newline_not_digit by blast
  then show ?thesis by simp
qed

lemma tap_then_sleep:
  "parse_plan (''Command: shell input tap 100 200'' @ [CHR 0x0A] @ ''Sleep: '' @ show_nat n) =
     [\<lparr> primary = ''shell input tap 100 200'', sleep = Some (Num (int n * 1000)) \<rparr>]"
proof -
  define l where "l = ''Sleep: '' @ show_nat n"
  have t: "trim l = ''Sleep: '' @ show_nat n"
    by (simp only: l_def trim_sleep_line)
  have "split_on CHR 0x0A (''Command: shell input tap 100 200'' @ CHR 0x0A # l) =
      ''Command: shell input tap 100 200'' # split_on CHR 0x0A l"
    by (rule split_on_token) simp
  moreover have "split_on CHR 0x0A l = [l]"
    unfolding l_def by (rule split_on_no_sep) (rule sleep_line_one_line)
  ultimately have lines:
    "split_on CHR 0x0A (''Command: shell input tap 100 200'' @ [CHR 0x0A] @ l) =
      [''Command: shell input tap 100 200'', l]"
    by simp
  have c: "is_command_line ''Command: shell input tap 100 200''"
    "action_of ''Command: shell input tap 100 200'' = ''shell input tap 100 200''"
    by code_simp+
  have nc: "\<not> is_command_line l"
    by (simp add: is_command_line_def t)
  have sl: "is_sleep_line l"
    by (simp add: is_sleep_line_def t)
  have d: "delay_of l = Num (int n * 1000)"
    unfolding l_def by (rule delay_of_seconds)
  have "spec_plan [''Command: shell input tap 100 200'', l] =
      [\<lparr> primary = ''shell input tap 100 200'', sleep = Some (Num (int n * 1000)) \<rparr>]"
    by (simp add: c nc sl d own_lines_def delay_in_def)
  then have "parse_plan (''Command: shell input tap 100 200'' @ [CHR 0x0A] @ l) =
      [\<lparr> primary = ''shell input tap 100 200'', sleep = Some (Num (int n * 1000)) \<rparr>]"
    by (simp only: parse_plan_def parse_lines_spec lines option.case append_Nil)
  then show ?thesis by (simp only: l_def)
qed

text \<open>
  Claim C6. For every reply, the parser returns one step for each line that begins with
  \<open>Command:\<close>, in the order of these lines. The action of a step is the trimmed
  remainder of its line. Its delay is set by the last \<open>Sleep:\<close> line that follows it
  before the next \<open>Command:\<close> line, to the integer of that line times 1000, and is
  not set when there is none; a \<open>Sleep:\<close> line before the first \<open>Command:\<close> line has
  no effect; the step that is open at the end of the input is part of the result. The
  integer is read by \<open>spec_integer\<close>, digit by digit and apart from the code's
  \<open>parseInt\<close>: a line \<open>Sleep: n\<close> gives the delay \<open>1000 n\<close> for every number \<open>n\<close>,
  the reply \<open>Command: shell input tap 100 200\<close>, \<open>Sleep: n\<close> gives one step with that
  action and the delay \<open>1000 n\<close>, and with \<open>Sleep: 2\<close> the delay is 2000.
\<close>

theorem plan_follows_command_lines:
  "parse_plan reply = spec_plan (split_on CHR 0x0A reply) \<and>
   map primary (parse_plan reply) =
     map action_of (filter is_command_line (split_on CHR 0x0A reply)) \<and>
   delay_of (''Sleep: '' @ show_nat n) = Num (int n * 1000) \<and>
   parse_plan (''Command: shell input tap 100 200'' @ [CHR 0x0A] @ ''Sleep: '' @ show_nat n) =
     [\<lparr> primary = ''shell input tap 100 200'', sleep = Some (Num (int n * 1000)) \<rparr>] \<and>
   parse_plan (''Command: shell input tap 100 200'' @ [CHR 0x0A] @ ''Sleep: 2'') =
     [\<lparr> primary = ''shell input tap 100 200'', sleep = Some (Num 2000) \<rparr>]"
proof (intro conjI)
  show "parse_plan
      (''Command: shell input tap 100 200'' @ [CHR 0x0A] @ ''Sleep: '' @ show_nat n) =
      [\<lparr> primary = ''shell input tap 100 200'', sleep = Some (Num (int n * 1000)) \<rparr>]"
    by (rule tap_then_sleep)
  show "parse_plan reply = spec_plan (split_on CHR 0x0A reply)"
    by (simp add: parse_plan_def parse_lines_spec)
  show "map primary (parse_plan reply) =
      map action_of (filter is_command_line (split_on CHR 0x0A reply))"
    by (simp add: parse_plan_def parse_lines_spec spec_plan_actions)
  show "delay_of (''Sleep: '' @ show_nat n) = Num (int n * 1000)"
    by (rule delay_of_seconds)
  show "parse_plan (''Command: shell input tap 100 200'' @ [CHR 0x0A] @ ''Sleep: 2'') =
      [\<lparr> primary = ''shell input tap 100 200'', sleep = Some (Num 2000) \<rparr>]"
    by code_simp
qed

section \<open>Text input\<close>

text \<open>
  Claim C7, as stated: the payload of a text-input action is everything after its third
  whitespace-separated token, and normalisation replaces every space of it by \<open>%s\<close>.
  The code splits at single spaces only. For the action \<open>tabbed\<close>, which a reply can
  hold, the payload of the claim is \<open>a b\<close>, and normalisation returns
  \<open>shell input text b\<close>.
\<close>

theorem tab_separated_payload_is_cut:
  "map primary (parse_plan (''Command: '' @ tabbed)) = [tabbed] \<and>
   spec_payload tabbed = ''a b'' \<and>
   normalize_text tabbed = ''shell input text b'' \<and>
   normalize_text tabbed \<noteq> ''shell input text '' @ escape_spaces (spec_payload tabbed)"
  by code_simp

text \<open>
  Claim C7, amended. For every action \<open>shell input t payload\<close> whose third token \<open>t\<close>
  begins with \<open>text\<close> and holds no space, where the tokens are separated by single
  spaces, normalisation returns \<open>shell input text\<close>, a space, and the payload with every
  space replaced by \<open>%s\<close>; no space is left in the payload. Normalisation is idempotent
  on every action.
\<close>

theorem text_payload_is_escaped:
  assumes "CHR '' '' \<notin> set t" and "prefix ''text'' t"
  shows "normalize_text (''shell input '' @ t @ '' '' @ payload) =
           ''shell input text '' @ escape_spaces payload \<and>
         escape_spaces payload =
           concat (map (\<lambda>c. if c = CHR '' '' then ''%s'' else [c]) payload) \<and>
         CHR '' '' \<notin> set (escape_spaces payload) \<and>
         normalize_text (normalize_text q) = normalize_text q"
proof (intro conjI)
  show "normalize_text (''shell input '' @ t @ '' '' @ payload) =
      ''shell input text '' @ escape_spaces payload"
    using assms by (rule normalize_text_shape)
  show "escape_spaces payload =
      concat (map (\<lambda>c. if c = CHR '' '' then ''%s'' else [c]) payload)"
    by (simp only: escape_spaces_def)
  show "CHR '' '' \<notin> set (escape_spaces payload)"
    by (rule escape_no_space)
  show "normalize_text (normalize_text q) = normalize_text q"
    by (rule normalize_text_idem)
qed

theorem text_payload_is_escaped_witness:
  "CHR '' '' \<notin> set ''text'' \<and> prefix ''text'' ''text'' \<and>
   normalize_text ''shell input text open app'' = ''shell input text open%sapp'' \<and>
   normalize_text (normalize_text ''shell input text open app'') =
     normalize_text ''shell input text open app''"
proof -
  have h: "CHR '' '' \<notin> set ''text''" "prefix ''text'' ''text''"
    by simp_all
  have e: "escape_spaces ''open app'' = ''open%sapp''"
    by (simp add: escape_spaces_def)
  note r = text_payload_is_escaped [OF h, of "''open app''" "''shell input text open app''"]
  from r e have a: "normalize_text ''shell input text open app'' = ''shell input text open%sapp''"
    by simp
  from r have b: "normalize_text (normalize_text ''shell input text open app'') =
      normalize_text ''shell input text open app''"
    by blast
  from h a b show ?thesis by blast
qed

section \<open>A fetch always returns\<close>

lemma getUiTree_returns: "\<exists>t. getUiTree io = Inr t"
  by (auto simp: getUiTree_def try_catch_def bind_result_def split: sum.splits)


lemma getContext_returns: "\<exists>c. getContext io = Inr c"
  using getUiTree_returns [of io]
  by (auto simp: getContext_def bind_result_def split: option.splits)


section \<open>The effects of the loop\<close>

lemma trace_simps [simp]:
  "trace (emit e s) = trace s @ [e]"
  "trace (push r c s) = trace s"
  "trace (observe ctx s) = trace s @ [Observe ctx]"
  "trace (executed st cmd s) = trace s @ [Exec cmd True, Toast (''Executed: '' @ cmd)] @ delays st"
  "trace (failed cmd s) = trace s @ [Exec cmd False, Toast (''Command failed: '' @ cmd)]"
  by (simp_all add: emit_def push_def observe_def executed_def failed_def)

lemma conversation_simps [simp]:
  "conversation (emit e s) = conversation s"
  "conversation (push r c s) = conversation s @ [\<lparr> role = r, content = c \<rparr>]"
  "conversation (observe ctx s) = conversation s @ [context_message ctx]"
  "conversation (executed st cmd s) = conversation s"
  "conversation (failed cmd s) = conversation s"
  by (simp_all add: emit_def push_def observe_def executed_def failed_def context_message_def)

lemma handler_simps [simp]:
  "fst (handler e s) = Errored e"
  "trace (snd (handler e s)) = trace s @ [Toast (''Error: '' @ e)]"
  "conversation (snd (handler e s)) = conversation s"
  by (simp_all add: handler_def)

lemma outcomes_append [simp]: "outcomes (a @ b) = outcomes a @ outcomes b"
  by (induction a rule: outcomes.induct) auto

lemma observations_append [simp]: "observations (a @ b) = observations a @ observations b"
  by (induction a rule: observations.induct) auto

lemma outcomes_delays [simp]: "outcomes (delays st) = []"
  by (auto simp: delays_def split: option.splits jsnum.splits)

lemma observations_delays [simp]: "observations (delays st) = []"
  by (auto simp: delays_def split: option.splits jsnum.splits)

lemma alternates_delays [simp]: "alternates d (delays st @ tr) = alternates d tr"
  by (auto simp: delays_def split: option.splits jsnum.splits)

lemma fails_last_append: "False \<notin> set (outcomes a) \<Longrightarrow> fails_last (a @ b) = fails_last b"
  by (induction a rule: outcomes.induct) auto

lemma exec_steps_never_throws: "fst (exec_steps w steps s) \<noteq> Threw e"
proof (induction steps arbitrary: s)
  case Nil
  then show ?case by simp
next
  case (Cons st steps)
  obtain c where
    "getContext (layout w (length (trace (executed st (normalize_step (primary st)) s)))) = Inr c"
    using getContext_returns by blast
  then show ?case using Cons by simp
qed

lemma fresh_from_append:
  "fresh_from w k (a @ b) = (fresh_from w k a \<and> fresh_from w (k + length a) b)"
  by (induction w k a rule: fresh_from.induct) auto

lemma fresh_from_delays [simp]: "fresh_from w k (delays st) = True"
  by (auto simp: delays_def split: option.splits jsnum.splits)

lemma exec_steps_observes:
  "\<exists>new. trace (snd (exec_steps w steps s)) = trace s @ new \<and>
     conversation (snd (exec_steps w steps s)) =
       conversation s @ map context_message (observations new) \<and>
     alternates False new \<and>
     fresh_from w (length (trace s)) new"
proof (induction steps arbitrary: s)
  case Nil
  then show ?case by simp
next
  case (Cons st steps)
  let ?cmd = "normalize_step (primary st)"
  obtain c where c: "getContext (layout w (length (trace (executed st ?cmd s)))) = Inr c"
    using getContext_returns by blast
  consider (empty) "primary st = []"
    | (tap) "primary st \<noteq> []" "missing_coordinates ?cmd"
    | (fail) "primary st \<noteq> []" "\<not> missing_coordinates ?cmd"
        "\<not> adb w (length (trace s)) ?cmd"
    | (ok) "primary st \<noteq> []" "\<not> missing_coordinates ?cmd" "adb w (length (trace s)) ?cmd"
    by blast
  then show ?case
  proof cases
    case empty
    then show ?thesis using Cons [of s] by simp
  next
    case tap
    let ?s = "emit (Toast ''Skipping invalid tap command.'') s"
    from Cons [of ?s]
    obtain new where
      "trace (snd (exec_steps w steps ?s)) =
         trace s @ (Toast ''Skipping invalid tap command.'' # new)"
      "conversation (snd (exec_steps w steps ?s)) =
         conversation s @ map context_message (observations new)"
      "alternates False new"
      "fresh_from w (Suc (length (trace s))) new"
      by auto
    then show ?thesis using tap
      by (intro exI [of _ "Toast ''Skipping invalid tap command.'' # new"]) simp
  next
    case fail
    then show ?thesis by simp
  next
    case ok
    let ?s = "observe c (executed st ?cmd s)"
    let ?pre = "[Exec ?cmd True, Toast (''Executed: '' @ ?cmd)] @ delays st @ [Observe c]"
    have k: "length (trace ?s) = length (trace s) + length ?pre"
      by simp
    from Cons [of ?s]
    obtain new where ih:
      "trace (snd (exec_steps w steps ?s)) = trace ?s @ new"
      "conversation (snd (exec_steps w steps ?s)) =
         conversation ?s @ map context_message (observations new)"
      "alternates False new"
      "fresh_from w (length (trace ?s)) new"
      by blast
    have new:
      "trace (snd (exec_steps w steps ?s)) = trace s @ (?pre @ new)"
      "conversation (snd (exec_steps w steps ?s)) =
         conversation s @ map context_message (observations (?pre @ new))"
      "alternates False new"
      "fresh_from w (length (trace s) + length ?pre) new"
      using ih by (simp_all only: k [symmetric]) simp_all
    have "fresh_from w (length (trace s)) ?pre"
      using c by (simp add: fresh_from_append)
    with new(4) have f: "fresh_from w (length (trace s)) (?pre @ new)"
      by (simp only: fresh_from_append simp_thms)
    have a: "alternates False (?pre @ new)"
      using new(3) by simp
    show ?thesis using ok c new(1,2) a f
      by (intro exI [of _ "?pre @ new"]) (simp del: append.simps append_Cons append_Nil)
  qed
qed

lemma exec_steps_failure:
  "\<exists>new. trace (snd (exec_steps w steps s)) = trace s @ new \<and>
     (if fst (exec_steps w steps s) = Returned then fails_last new
      else False \<notin> set (outcomes new))"
proof (induction steps arbitrary: s)
  case Nil
  then show ?case by simp
next
  case (Cons st steps)
  let ?cmd = "normalize_step (primary st)"
  obtain c where c: "getContext (layout w (length (trace (executed st ?cmd s)))) = Inr c"
    using getContext_returns by blast
  consider (empty) "primary st = []"
    | (tap) "primary st \<noteq> []" "missing_coordinates ?cmd"
    | (fail) "primary st \<noteq> []" "\<not> missing_coordinates ?cmd"
        "\<not> adb w (length (trace s)) ?cmd"
    | (ok) "primary st \<noteq> []" "\<not> missing_coordinates ?cmd" "adb w (length (trace s)) ?cmd"
    by blast
  then show ?case
  proof cases
    case empty
    then show ?thesis using Cons [of s] by simp
  next
    case tap
    let ?s = "emit (Toast ''Skipping invalid tap command.'') s"
    from Cons [of ?s]
    obtain new where
      "trace (snd (exec_steps w steps ?s)) =
         trace s @ (Toast ''Skipping invalid tap command.'' # new)"
      "if fst (exec_steps w steps ?s) = Returned then fails_last new
       else False \<notin> set (outcomes new)"
      by auto
    then show ?thesis using tap
      by (intro exI [of _ "Toast ''Skipping invalid tap command.'' # new"]) simp
  next
    case fail
    then show ?thesis by simp
  next
    case ok
    let ?s = "observe c (executed st ?cmd s)"
    let ?pre = "[Exec ?cmd True, Toast (''Executed: '' @ ?cmd)] @ delays st @ [Observe c]"
    from Cons [of ?s]
    obtain new where
      "trace (snd (exec_steps w steps ?s)) = trace s @ (?pre @ new)"
      "if fst (exec_steps w steps ?s) = Returned then fails_last new
       else False \<notin> set (outcomes new)"
      by auto
    moreover have "fails_last (?pre @ new) = fails_last new"
      by (rule fails_last_append) simp
    ultimately show ?thesis using ok c
      by (intro exI [of _ "?pre @ new"]) (simp del: append.simps append_Cons append_Nil)
  qed
qed

lemma agent_loop_failure:
  "\<exists>new. trace (snd (agent_loop n w s)) = trace s @ new \<and>
     (if fst (agent_loop n w s) = Aborted then fails_last new
      else False \<notin> set (outcomes new))"
proof (induction n arbitrary: s)
  case 0
  then show ?case by simp
next
  case (Suc n)
  obtain c where c: "getContext (layout w (length (trace s))) = Inr c"
    using getContext_returns by blast
  let ?s1 = "observe c s"
  show ?case
  proof (cases "completion w (conversation ?s1)")
    case (Inl e)
    then show ?thesis using c by simp
  next
    case (Inr reply)
    show ?thesis
    proof (cases "toUpperCase (trim reply) = ''DONE''")
      case True
      then show ?thesis using c Inr by simp
    next
      case False
      let ?s2 = "push Assistant (trim reply) ?s1"
      let ?r = "exec_steps w (parse_plan (trim reply)) ?s2"
      obtain fl s3 where r: "?r = (fl, s3)" by (cases ?r)
      from exec_steps_failure [of w "parse_plan (trim reply)" ?s2] r
      obtain new where new: "trace s3 = trace s @ (Observe c # new)"
        "if fl = Returned then fails_last new else False \<notin> set (outcomes new)"
        by auto
      show ?thesis
      proof (cases fl)
        case Completed
        from Suc [of s3] obtain new' where
          new': "trace (snd (agent_loop n w s3)) = trace s3 @ new'"
          "if fst (agent_loop n w s3) = Aborted then fails_last new'
           else False \<notin> set (outcomes new')"
          by auto
        have nf: "False \<notin> set (outcomes (Observe c # new))"
          using new(2) Completed by simp
        have "fails_last ((Observe c # new) @ new') = fails_last new'"
          using nf by (rule fails_last_append)
        then show ?thesis using c Inr False r Completed new(1) new' nf
          by (intro exI [of _ "(Observe c # new) @ new'"])
            (simp del: append_Cons fails_last.simps)
      next
        case Returned
        then show ?thesis using c Inr False r new
          by (intro exI [of _ "Observe c # new"]) simp
      next
        case (Threw e)
        then show ?thesis
          using exec_steps_never_throws [of w "parse_plan (trim reply)" ?s2 e] r by simp
      qed
    qed
  qed
qed


lemma exec_steps_prefix: "prefix (conversation s) (conversation (snd (exec_steps w steps s)))"
  using exec_steps_observes [of w steps s] by auto

lemma agent_loop_prefix: "prefix (conversation s) (conversation (snd (agent_loop n w s)))"
proof (induction n arbitrary: s)
  case 0
  then show ?case by simp
next
  case (Suc n)
  obtain c where c: "getContext (layout w (length (trace s))) = Inr c"
    using getContext_returns by blast
  let ?s1 = "observe c s"
  show ?case
  proof (cases "completion w (conversation ?s1)")
    case (Inl e)
    then show ?thesis using c by simp
  next
    case (Inr reply)
    show ?thesis
    proof (cases "toUpperCase (trim reply) = ''DONE''")
      case True
      then show ?thesis using c Inr by simp
    next
      case False
      let ?s2 = "push Assistant (trim reply) ?s1"
      let ?r = "exec_steps w (parse_plan (trim reply)) ?s2"
      obtain fl s3 where r: "?r = (fl, s3)" by (cases ?r)
      have "prefix (conversation ?s2) (conversation s3)"
        using exec_steps_prefix [of ?s2 w "parse_plan (trim reply)"] r by simp
      then have p: "prefix (conversation s) (conversation s3)"
        by (auto simp: prefix_def)
      show ?thesis
      proof (cases fl)
        case Completed
        have "prefix (conversation s3) (conversation (snd (agent_loop n w s3)))"
          by (rule Suc)
        with p have "prefix (conversation s) (conversation (snd (agent_loop n w s3)))"
          by (rule prefix_order.trans)
        then show ?thesis using c Inr False r Completed by simp
      next
        case Returned
        then show ?thesis using c Inr False r p by simp
      next
        case (Threw e)
        then show ?thesis using c Inr False r p by simp
      qed
    qed
  qed
qed

lemma agent_loop_fresh:
  "\<exists>new. trace (snd (agent_loop n w s)) = trace s @ new \<and>
     fresh_from w (length (trace s)) new"
proof (induction n arbitrary: s)
  case 0
  then show ?case by simp
next
  case (Suc n)
  obtain c where c: "getContext (layout w (length (trace s))) = Inr c"
    using getContext_returns by blast
  let ?s1 = "observe c s"
  show ?case
  proof (cases "completion w (conversation ?s1)")
    case (Inl e)
    then show ?thesis using c by (simp add: fresh_from_append)
  next
    case (Inr reply)
    show ?thesis
    proof (cases "toUpperCase (trim reply) = ''DONE''")
      case True
      then show ?thesis using c Inr by (simp add: fresh_from_append)
    next
      case False
      let ?s2 = "push Assistant (trim reply) ?s1"
      let ?r = "exec_steps w (parse_plan (trim reply)) ?s2"
      obtain fl s3 where r: "?r = (fl, s3)" by (cases ?r)
      from exec_steps_observes [of w "parse_plan (trim reply)" ?s2] r
      obtain new where new: "trace s3 = trace s @ (Observe c # new)"
        "fresh_from w (Suc (length (trace s))) new"
        by auto
      have f: "fresh_from w (length (trace s)) (Observe c # new)"
        using c new(2) by simp
      show ?thesis
      proof (cases fl)
        case Completed
        from Suc [of s3] obtain new' where
          new': "trace (snd (agent_loop n w s3)) = trace s3 @ new'"
          "fresh_from w (length (trace s3)) new'"
          by auto
        have "fresh_from w (length (trace s)) ((Observe c # new) @ new')"
          using f new'(2) new(1) by (simp only: fresh_from_append length_append)
        then show ?thesis using c Inr False r Completed new(1) new'(1)
          by (intro exI [of _ "(Observe c # new) @ new'"])
            (simp del: append_Cons fresh_from.simps)
      next
        case Returned
        then show ?thesis using c Inr False r new(1) f
          by (intro exI [of _ "Observe c # new"]) simp
      next
        case (Threw e)
        then show ?thesis
          using exec_steps_never_throws [of w "parse_plan (trim reply)" ?s2 e] r by simp
      qed
    qed
  qed
qed

lemma turn_opens_with_observation:
  "\<exists>c. getContext (layout w (length (trace s))) = Inr c \<and>
     (case completion w (conversation s @ [context_message c]) of
        Inl e \<Rightarrow> agent_loop (Suc n) w s = handler e (observe c s)
      | Inr reply \<Rightarrow>
          (\<exists>new msgs.
             trace (snd (agent_loop (Suc n) w s)) = trace s @ Observe c # new \<and>
             conversation (snd (agent_loop (Suc n) w s)) =
               conversation s @ context_message c #
                 \<lparr> role = Assistant, content = trim reply \<rparr> # msgs))"
proof -
  obtain c where c: "getContext (layout w (length (trace s))) = Inr c"
    using getContext_returns by blast
  let ?s1 = "observe c s"
  have conv: "conversation ?s1 = conversation s @ [context_message c]" by simp
  show ?thesis
  proof (cases "completion w (conversation s @ [context_message c])")
    case (Inl e)
    then show ?thesis using c conv by (intro exI [of _ c]) simp
  next
    case (Inr reply)
    let ?s2 = "push Assistant (trim reply) ?s1"
    have "\<exists>new msgs.
        trace (snd (agent_loop (Suc n) w s)) = trace s @ Observe c # new \<and>
        conversation (snd (agent_loop (Suc n) w s)) =
          conversation s @ context_message c #
            \<lparr> role = Assistant, content = trim reply \<rparr> # msgs"
    proof (cases "toUpperCase (trim reply) = ''DONE''")
      case True
      then show ?thesis using c conv Inr by simp
    next
      case False
      let ?r = "exec_steps w (parse_plan (trim reply)) ?s2"
      obtain fl s3 where r: "?r = (fl, s3)" by (cases ?r)
      from exec_steps_observes [of w "parse_plan (trim reply)" ?s2] r
      obtain new where new: "trace s3 = trace s @ Observe c # new"
        "conversation s3 = conversation s @ context_message c #
           \<lparr> role = Assistant, content = trim reply \<rparr> # map context_message (observations new)"
        by auto
      show ?thesis
      proof (cases fl)
        case Completed
        obtain new' where t: "trace (snd (agent_loop n w s3)) = trace s3 @ new'"
          using agent_loop_fresh [of n w s3] by blast
        obtain msgs where m: "conversation (snd (agent_loop n w s3)) = conversation s3 @ msgs"
          using agent_loop_prefix [of s3 n w] by (auto simp: prefix_def)
        show ?thesis using c conv Inr False r Completed new t m by simp
      next
        case Returned
        then show ?thesis using c conv Inr False r new by simp
      next
        case (Threw e)
        then show ?thesis
          using exec_steps_never_throws [of w "parse_plan (trim reply)" ?s2 e] r by simp
      qed
    qed
    then show ?thesis using c Inr by (intro exI [of _ c]) simp
  qed
qed

lemma runAgent_prefix:
  "case packages w of
     Inl e \<Rightarrow> conversation (snd (runAgent n w)) = []
   | Inr pkgs \<Rightarrow> prefix (conversation (initial pkgs)) (conversation (snd (runAgent n w)))"
  using agent_loop_prefix [of "push User (trim (answer w)) _" n w]
  by (auto simp: runAgent_def prefix_def handler_def split: sum.splits if_splits)

lemma empty_skipped:
  "primary st = [] \<Longrightarrow> exec_steps w (pre @ st # post) s = exec_steps w (pre @ post) s"
proof (induction pre arbitrary: s)
  case Nil
  then show ?case by simp
next
  case (Cons a pre)
  then show ?case by (simp split: sum.splits)
qed

section \<open>The claims about the loop\<close>

text \<open>
  Claim C2. A tap action with fewer than two arguments after \<open>shell input tap\<close> should
  be skipped and never sent to the transport. The code skips a tap only when splitting
  it at spaces gives fewer than four parts, that is when it has no argument at all, and
  it reports \<open>tap command missing coordinates\<close>. The tap \<open>shell input tap 100\<close>, which
  has one coordinate, is not skipped: it is sent to the transport.
\<close>

theorem tap_with_one_coordinate_is_sent:
  "map primary (parse_plan ''Command: shell input tap 100'') = [''shell input tap 100''] \<and>
   \<not> missing_coordinates (normalize_step ''shell input tap 100'') \<and>
   exec_steps (world_of True []) (parse_plan ''Command: shell input tap 100'') start =
     (Completed,
      \<lparr> conversation = [context_message ''Unknown''],
        trace = [Exec ''shell input tap 100'' True, Toast ''Executed: shell input tap 100'',
                 Wait 1500, Observe ''Unknown''] \<rparr>)"
  by code_simp

text \<open>
  Claim C3, as stated: after every step of a plan, executed or skipped, and whatever its
  outcome, a fresh observation is appended to the conversation before the next step.
  In the plan of a tap without coordinates and a key event, the tap is skipped and the
  key event is sent next, with no observation between them: two steps, one message.
  In a plan of two key events on a transport that fails, the run returns after the
  first, and no observation is taken at all.
\<close>

theorem skipped_and_failed_steps_are_not_observed:
  "exec_steps (world_of True []) [tap_step, key_step] start =
     (Completed,
      \<lparr> conversation = [context_message ''Unknown''],
        trace = [Toast ''Skipping invalid tap command.'',
                 Exec ''shell input keyevent 3'' True,
                 Toast ''Executed: shell input keyevent 3'', Wait 1500,
                 Observe ''Unknown''] \<rparr>) \<and>
   exec_steps (world_of False []) [key_step, key_step] start =
     (Returned,
      \<lparr> conversation = [],
        trace = [Exec ''shell input keyevent 3'' False,
                 Toast ''Command failed: shell input keyevent 3''] \<rparr>)"
  by code_simp

text \<open>
  Claim C3, amended. After every step whose command the transport has executed, a fresh
  observation is taken before the next command is sent and before the plan ends: its
  context is what \<open>getContext\<close> returns for the layout of that moment, and it is
  appended to the conversation as a system message \<open>UI Context: ...\<close>. No observation
  is taken at any other moment of a plan: none after a skipped step, none after a
  failed command. The conversation grows by the messages of these observations and by
  nothing else. Every planning turn opens with a fresh observation, which is in the
  conversation that the planner is asked with, and every observation of a whole run is
  fresh.
\<close>

theorem observation_follows_each_executed_step:
  "(\<exists>new. trace (snd (exec_steps w steps s)) = trace s @ new \<and>
      conversation (snd (exec_steps w steps s)) =
        conversation s @ map context_message (observations new) \<and>
      alternates False new \<and>
      fresh_from w (length (trace s)) new) \<and>
   (\<exists>c. getContext (layout w (length (trace s))) = Inr c \<and>
      (case completion w (conversation s @ [context_message c]) of
         Inl e \<Rightarrow> agent_loop (Suc n) w s = handler e (observe c s)
       | Inr reply \<Rightarrow>
           (\<exists>new msgs.
              trace (snd (agent_loop (Suc n) w s)) = trace s @ Observe c # new \<and>
              conversation (snd (agent_loop (Suc n) w s)) =
                conversation s @ context_message c #
                  \<lparr> role = Assistant, content = trim reply \<rparr> # msgs))) \<and>
   (\<exists>new. trace (snd (agent_loop n w s)) = trace s @ new \<and>
      fresh_from w (length (trace s)) new)"
proof (intro conjI)
  show "\<exists>new. trace (snd (exec_steps w steps s)) = trace s @ new \<and>
      conversation (snd (exec_steps w steps s)) =
        conversation s @ map context_message (observations new) \<and>
      alternates False new \<and>
      fresh_from w (length (trace s)) new"
    by (rule exec_steps_observes)
  show "\<exists>c. getContext (layout w (length (trace s))) = Inr c \<and>
      (case completion w (conversation s @ [context_message c]) of
         Inl e \<Rightarrow> agent_loop (Suc n) w s = handler e (observe c s)
       | Inr reply \<Rightarrow>
           (\<exists>new msgs.
              trace (snd (agent_loop (Suc n) w s)) = trace s @ Observe c # new \<and>
              conversation (snd (agent_loop (Suc n) w s)) =
                conversation s @ context_message c #
                  \<lparr> role = Assistant, content = trim reply \<rparr> # msgs))"
    by (rule turn_opens_with_observation)
  show "\<exists>new. trace (snd (agent_loop n w s)) = trace s @ new \<and>
      fresh_from w (length (trace s)) new"
    by (rule agent_loop_fresh)
qed

text \<open>
  Claim C4. If the transport call of a step fails, the run is aborted at once. Whatever
  events a run adds to the trace, from any state and for any bound on the planning
  turns: if a transport call among them has failed, then the run has ended as
  \<open>Aborted\<close>, no call before that one has failed, and nothing follows it but the notice
  of the failure; so the command is not sent again and no later step is sent.
\<close>

theorem transport_failure_aborts_the_run:
  assumes "trace (snd (agent_loop n w s)) = trace s @ new"
    and "False \<in> set (outcomes new)"
  shows "fst (agent_loop n w s) = Aborted \<and> fails_last new"
proof -
  from agent_loop_failure [of n w s] obtain new' where
    t: "trace (snd (agent_loop n w s)) = trace s @ new'"
    and c: "if fst (agent_loop n w s) = Aborted then fails_last new'
            else False \<notin> set (outcomes new')"
    by blast
  from t assms(1) have "new' = new" by simp
  with c assms(2) show ?thesis by (auto split: if_splits)
qed

theorem transport_failure_aborts_the_run_witness:
  "trace (snd (agent_loop 2 (world_of False ''Command: shell input keyevent 3'') start)) =
     trace start @
       [Observe ''Unknown'', Exec ''shell input keyevent 3'' False,
        Toast ''Command failed: shell input keyevent 3''] \<and>
   False \<in> set (outcomes
       [Observe ''Unknown'', Exec ''shell input keyevent 3'' False,
        Toast ''Command failed: shell input keyevent 3'']) \<and>
   fst (agent_loop 2 (world_of False ''Command: shell input keyevent 3'') start) = Aborted \<and>
   fails_last
       [Observe ''Unknown'', Exec ''shell input keyevent 3'' False,
        Toast ''Command failed: shell input keyevent 3'']"
proof -
  have t: "trace (snd (agent_loop 2 (world_of False ''Command: shell input keyevent 3'') start)) =
     trace start @
       [Observe ''Unknown'', Exec ''shell input keyevent 3'' False,
        Toast ''Command failed: shell input keyevent 3'']"
    by code_simp
  have f: "False \<in> set (outcomes
       [Observe ''Unknown'', Exec ''shell input keyevent 3'' False,
        Toast ''Command failed: shell input keyevent 3''])"
    by simp
  from transport_failure_aborts_the_run [OF t f] t f show ?thesis by blast
qed

text \<open>
  Claim C5. If the trimmed reply of the planner is \<open>DONE\<close> in any letter case, the turn
  ends the loop as \<open>Terminated\<close>: the observation and the reply are appended to the
  conversation, the only events are the observation and the closing notice, and no
  command is sent. The result does not depend on what the parser would return.
\<close>

theorem done_reply_terminates:
  assumes "getContext (layout w (length (trace s))) = Inr c"
    and "completion w (conversation (observe c s)) = Inr reply"
    and "toUpperCase (trim reply) = ''DONE''"
  shows "agent_loop (Suc n) w s =
     (Terminated,
      \<lparr> conversation =
          conversation s @ [context_message c, \<lparr> role = Assistant, content = trim reply \<rparr>],
        trace = trace s @ [Observe c, Toast ''Execution complete.''] \<rparr>)"
  using assms by (simp add: observe_def push_def emit_def context_message_def)

theorem done_reply_terminates_witness:
  "getContext (layout (world_of True '' Done '') (length (trace start))) = Inr ''Unknown'' \<and>
   completion (world_of True '' Done '') (conversation (observe ''Unknown'' start)) =
     Inr '' Done '' \<and>
   toUpperCase (trim '' Done '') = ''DONE'' \<and>
   agent_loop (Suc 0) (world_of True '' Done '') start =
     (Terminated,
      \<lparr> conversation =
          conversation start @
            [context_message ''Unknown'', \<lparr> role = Assistant, content = trim '' Done '' \<rparr>],
        trace = trace start @ [Observe ''Unknown'', Toast ''Execution complete.''] \<rparr>)"
proof -
  have a: "getContext (layout (world_of True '' Done '') (length (trace start))) =
      Inr ''Unknown''"
    by code_simp
  have b: "completion (world_of True '' Done '') (conversation (observe ''Unknown'' start)) =
      Inr '' Done ''"
    by code_simp
  have c: "toUpperCase (trim '' Done '') = ''DONE''"
    by code_simp
  from done_reply_terminates [OF a b c, of 0] a b c show ?thesis by blast
qed



text \<open>
  Claim C9. The conversation is append-only. Every operation on the state keeps the
  messages it finds and at most adds messages at the end: the primitive operations, the
  run of a plan, the loop for any number of turns, and the whole of \<open>runAgent\<close> from
  the system prompt on.
\<close>

theorem conversation_is_append_only:
  "prefix (conversation s) (conversation (emit ev s)) \<and>
   prefix (conversation s) (conversation (push r c s)) \<and>
   prefix (conversation s) (conversation (observe c s)) \<and>
   prefix (conversation s) (conversation (executed st cmd s)) \<and>
   prefix (conversation s) (conversation (failed cmd s)) \<and>
   prefix (conversation s) (conversation (snd (handler e s))) \<and>
   prefix (conversation s) (conversation (snd (exec_steps w steps s))) \<and>
   prefix (conversation s) (conversation (snd (agent_loop n w s))) \<and>
   (case packages w of
      Inl e \<Rightarrow> conversation (snd (runAgent n w)) = []
    | Inr pkgs \<Rightarrow> prefix (conversation (initial pkgs)) (conversation (snd (runAgent n w))))"
  by (simp add: exec_steps_prefix agent_loop_prefix runAgent_prefix)

text \<open>
  Claim C10. A step whose action is empty, as parsed from a line \<open>Command:\<close> with nothing
  after the marker, is skipped before any transport call: wherever it stands in a plan,
  the plan runs exactly as it does without that step, so the step sends no command and
  does not end the loop.
\<close>

theorem empty_action_is_skipped:
  assumes "primary st = []"
  shows "exec_steps w (pre @ st # post) s = exec_steps w (pre @ post) s"
  using assms by (rule empty_skipped)

theorem empty_action_is_skipped_witness:
  "parse_plan ''Command:'' = [\<lparr> primary = [], sleep = None \<rparr>] \<and>
   primary \<lparr> primary = [], sleep = None \<rparr> = [] \<and>
   exec_steps (world_of False []) (parse_plan ''Command:'') start = (Completed, start)"
proof -
  have p: "parse_plan ''Command:'' = [\<lparr> primary = [], sleep = None \<rparr>]"
    by code_simp
  have h: "primary \<lparr> primary = [], sleep = None \<rparr> = []"
    by simp
  from empty_action_is_skipped [OF h, of "world_of False []" "[]" "[]" start]
  have "exec_steps (world_of False []) [\<lparr> primary = [], sleep = None \<rparr>] start =
      (Completed, start)"
    by simp
  with p h show ?thesis by simp
qed

end
